theory Spec2Isabelle
  imports Main "HOL-Library.AList"
begin

section \<open>Values, property keys and the object heap\<close>

text \<open>
  The module works on JavaScript objects: it walks prototype chains, reads property
  descriptors and defines own properties. The model is a heap of ordinary objects.
  An object has its own properties in the order it stores them, a prototype link, the
  extensible flag and, when it is a function, the code it runs when called. Object
  identity is the address, so reference equality of the source is equality of addresses.
\<close>

datatype key = KStr string | KSym nat

type_synonym addr = nat

datatype val = VUndef | VNull | VBool bool | VNum int | VStr string | VSymbol nat | VObj addr

text \<open>
  A stored property is a data property (value, writable, enumerable, configurable) or an
  accessor property (get, set, enumerable, configurable); an absent getter or setter is
  \<open>VUndef\<close>.
\<close>

datatype slot =
    DataP val bool bool bool
  | AccP val val bool bool

text \<open>
  The code of a function object. \<open>UserFn n\<close> is a function of the caller's program,
  whose body is not part of the module. \<open>BoundFn f t\<close> is the result of \<open>f.bind(t)\<close>.
  \<open>LazyGetter originalFn self method\<close> is the getter closure created in \<open>bindLazy\<close>,
  \<open>BoundGetter target key fn\<close> the getter closure created in \<open>bound\<close>, and
  \<open>WrappedCtor original\<close> the function \<open>wrapped\<close> created in \<open>boundClass\<close>; each records
  the variables the closure captures.
\<close>

datatype code =
    UserFn nat
  | BoundFn addr val
  | LazyGetter addr addr key
  | BoundGetter val key addr
  | WrappedCtor addr

record obj =
  props :: "(key \<times> slot) list"
  proto :: "addr option"
  extensible :: bool
  code :: "code option"

type_synonym heap = "obj list"

datatype exn = TypeError string | Thrown val

datatype 'a completion = Normal 'a | Throw exn

text \<open>
  An operation that can run forever returns \<open>None\<close> when it does; otherwise it returns
  how it completed and the heap it left.
\<close>

type_synonym 'a result = "('a completion \<times> heap) option"

text \<open>
  The bodies that calling a value takes as given: those of the caller's functions, and
  that of a function made by \<open>boundClass\<close> when it is called without \<open>new\<close>. Each is run
  with a receiver and arguments. (Construction with \<open>new\<close>, which is how a wrapped class is
  used, is defined with \<open>boundClass\<close> below.)
\<close>

type_synonym bodies = "code \<Rightarrow> val \<Rightarrow> val list \<Rightarrow> heap \<Rightarrow> val result"

definition lookup :: "heap \<Rightarrow> addr \<Rightarrow> obj option" where
  "lookup h a = (if a < length h then Some (h ! a) else None)"

definition alloc :: "heap \<Rightarrow> obj \<Rightarrow> addr \<times> heap" where
  "alloc h ob = (length h, h @ [ob])"

text \<open>\<open>Object.prototype\<close> is the object at address 0 of every heap.\<close>

definition ObjectPrototype :: addr where
  "ObjectPrototype = 0"

definition getPrototypeOf :: "heap \<Rightarrow> addr \<Rightarrow> addr option" where
  "getPrototypeOf h a = (case lookup h a of None \<Rightarrow> None | Some ob \<Rightarrow> proto ob)"

definition getOwnPropertyDescriptor :: "heap \<Rightarrow> addr \<Rightarrow> key \<Rightarrow> slot option" where
  "getOwnPropertyDescriptor h a k =
     (case lookup h a of None \<Rightarrow> None | Some ob \<Rightarrow> map_of (props ob) k)"

fun is_string_key :: "key \<Rightarrow> bool" where
  "is_string_key (KStr s) = True"
| "is_string_key (KSym n) = False"

text \<open>String keys and symbol keys of an object, each in the order the object stores them.\<close>

definition getOwnPropertyNames :: "heap \<Rightarrow> addr \<Rightarrow> key list" where
  "getOwnPropertyNames h a =
     (case lookup h a of None \<Rightarrow> [] | Some ob \<Rightarrow> filter is_string_key (map fst (props ob)))"

definition getOwnPropertySymbols :: "heap \<Rightarrow> addr \<Rightarrow> key list" where
  "getOwnPropertySymbols h a =
     (case lookup h a of None \<Rightarrow> []
      | Some ob \<Rightarrow> filter (\<lambda>k. \<not> is_string_key k) (map fst (props ob)))"

text \<open>\<open>descriptor.value\<close>: undefined on an accessor descriptor.\<close>

fun desc_value :: "slot \<Rightarrow> val" where
  "desc_value (DataP v w e c) = v"
| "desc_value (AccP g s e c) = VUndef"

definition fn_code :: "heap \<Rightarrow> val \<Rightarrow> code option" where
  "fn_code h v =
     (case v of VObj a \<Rightarrow> (case lookup h a of None \<Rightarrow> None | Some ob \<Rightarrow> code ob)
      | _ \<Rightarrow> None)"

text \<open>\<open>typeof v === 'function'\<close>\<close>

definition isCallable :: "heap \<Rightarrow> val \<Rightarrow> bool" where
  "isCallable h v = (fn_code h v \<noteq> None)"

subsection \<open>Object.defineProperty\<close>

text \<open>
  A descriptor handed to \<open>Object.defineProperty\<close>: every field may be absent. The
  definition follows the language's validation of a descriptor against the current
  property: a new property needs an extensible object, a non-configurable property
  refuses every change, and a refused definition throws a \<open>TypeError\<close>.
\<close>

record descriptor =
  d_value :: "val option"
  d_writable :: "bool option"
  d_get :: "val option"
  d_set :: "val option"
  d_enumerable :: "bool option"
  d_configurable :: "bool option"

definition is_accessor_desc :: "descriptor \<Rightarrow> bool" where
  "is_accessor_desc d = (d_get d \<noteq> None \<or> d_set d \<noteq> None)"

definition is_data_desc :: "descriptor \<Rightarrow> bool" where
  "is_data_desc d = (d_value d \<noteq> None \<or> d_writable d \<noteq> None)"

definition or_else :: "'a option \<Rightarrow> 'a \<Rightarrow> 'a" where
  "or_else x d = (case x of None \<Rightarrow> d | Some y \<Rightarrow> y)"

definition differs :: "'a option \<Rightarrow> 'a \<Rightarrow> bool" where
  "differs x cur = (case x of None \<Rightarrow> False | Some y \<Rightarrow> y \<noteq> cur)"

definition new_prop :: "descriptor \<Rightarrow> slot" where
  "new_prop d =
     (if is_accessor_desc d
      then AccP (or_else (d_get d) VUndef) (or_else (d_set d) VUndef)
             (or_else (d_enumerable d) False) (or_else (d_configurable d) False)
      else DataP (or_else (d_value d) VUndef) (or_else (d_writable d) False)
             (or_else (d_enumerable d) False) (or_else (d_configurable d) False))"

fun change_refused :: "slot \<Rightarrow> descriptor \<Rightarrow> bool" where
  "change_refused (DataP v w e c) d =
     (\<not> c \<and> (d_configurable d = Some True \<or> differs (d_enumerable d) e \<or> is_accessor_desc d
        \<or> (\<not> w \<and> (d_writable d = Some True \<or> differs (d_value d) v))))"
| "change_refused (AccP g s e c) d =
     (\<not> c \<and> (d_configurable d = Some True \<or> differs (d_enumerable d) e \<or> is_data_desc d
        \<or> differs (d_get d) g \<or> differs (d_set d) s))"

fun changed_prop :: "slot \<Rightarrow> descriptor \<Rightarrow> slot" where
  "changed_prop (DataP v w e c) d =
     (if is_accessor_desc d
      then AccP (or_else (d_get d) VUndef) (or_else (d_set d) VUndef)
             (or_else (d_enumerable d) e) (or_else (d_configurable d) c)
      else DataP (or_else (d_value d) v) (or_else (d_writable d) w)
             (or_else (d_enumerable d) e) (or_else (d_configurable d) c))"
| "changed_prop (AccP g s e c) d =
     (if is_data_desc d
      then DataP (or_else (d_value d) VUndef) (or_else (d_writable d) False)
             (or_else (d_enumerable d) e) (or_else (d_configurable d) c)
      else AccP (or_else (d_get d) g) (or_else (d_set d) s)
             (or_else (d_enumerable d) e) (or_else (d_configurable d) c))"

text \<open>A changed property keeps its place among the own properties; a new one goes last.\<close>

definition set_prop :: "heap \<Rightarrow> addr \<Rightarrow> key \<Rightarrow> slot \<Rightarrow> heap" where
  "set_prop h a k p = h[a := (h ! a)\<lparr>props := AList.update k p (props (h ! a))\<rparr>]"

definition defineProperty :: "heap \<Rightarrow> addr \<Rightarrow> key \<Rightarrow> descriptor \<Rightarrow> unit completion \<times> heap" where
  "defineProperty h a k d =
     (case lookup h a of
        None \<Rightarrow> (Throw (TypeError ''Object.defineProperty called on non-object''), h)
      | Some ob \<Rightarrow>
          (case map_of (props ob) k of
             None \<Rightarrow>
               if extensible ob then (Normal (), set_prop h a k (new_prop d))
               else (Throw (TypeError ''Cannot define property, object is not extensible''), h)
           | Some cur \<Rightarrow>
               if change_refused cur d then (Throw (TypeError ''Cannot redefine property''), h)
               else (Normal (), set_prop h a k (changed_prop cur d))))"

text \<open>
  \<open>f.bind(t)\<close> makes a new function object. Its \<open>length\<close> and \<open>name\<close> properties, which
  nothing in the module reads, are left out.
\<close>

definition bind_fn :: "heap \<Rightarrow> addr \<Rightarrow> val \<Rightarrow> addr \<times> heap" where
  "bind_fn h f t =
     alloc h \<lparr>props = [], proto = getPrototypeOf h f, extensible = True,
              code = Some (BoundFn f t)\<rparr>"

text \<open>The descriptor both binders install: writable, configurable, not enumerable.\<close>

definition bound_value_desc :: "val \<Rightarrow> descriptor" where
  "bound_value_desc v =
     \<lparr>d_value = Some v, d_writable = Some True, d_get = None, d_set = None,
      d_enumerable = Some False, d_configurable = Some True\<rparr>"

definition getter_desc :: "val \<Rightarrow> descriptor" where
  "getter_desc g =
     \<lparr>d_value = None, d_writable = None, d_get = Some g, d_set = None,
      d_enumerable = Some False, d_configurable = Some True\<rparr>"

section \<open>Method discovery and filtering\<close>

definition BUILTIN_OBJECT_METHODS :: "string list" where
  "BUILTIN_OBJECT_METHODS =
     [''constructor'', ''toString'', ''toLocaleString'', ''valueOf'', ''hasOwnProperty'',
      ''isPrototypeOf'', ''propertyIsEnumerable'', ''__defineGetter__'', ''__defineSetter__'',
      ''__lookupGetter__'', ''__lookupSetter__'']"

text \<open>\<open>methods.add(key)\<close> on a \<open>Set\<close>, which keeps insertion order.\<close>

definition set_add :: "key list \<Rightarrow> key \<Rightarrow> key list" where
  "set_add ms k = (if k \<in> set ms then ms else ms @ [k])"

definition has_function_value :: "heap \<Rightarrow> addr \<Rightarrow> key \<Rightarrow> bool" where
  "has_function_value h p k =
     (case getOwnPropertyDescriptor h p k of None \<Rightarrow> False
      | Some d \<Rightarrow> isCallable h (desc_value d))"

text \<open>The two \<open>for\<close> loops of \<open>getAllMethodNames\<close> on one prototype.\<close>

fun add_names :: "heap \<Rightarrow> addr \<Rightarrow> key list \<Rightarrow> key list \<Rightarrow> key list" where
  "add_names h p [] methods = methods"
| "add_names h p (k # ks) methods =
     (if k = KStr ''constructor'' then add_names h p ks methods
      else if has_function_value h p k then add_names h p ks (set_add methods k)
      else add_names h p ks methods)"

fun add_symbols :: "heap \<Rightarrow> addr \<Rightarrow> key list \<Rightarrow> key list \<Rightarrow> key list" where
  "add_symbols h p [] methods = methods"
| "add_symbols h p (k # ks) methods =
     (if has_function_value h p k then add_symbols h p ks (set_add methods k)
      else add_symbols h p ks methods)"

definition add_level :: "heap \<Rightarrow> addr \<Rightarrow> key list \<Rightarrow> key list" where
  "add_level h p methods =
     add_symbols h p (getOwnPropertySymbols h p) (add_names h p (getOwnPropertyNames h p) methods)"

text \<open>
  The \<open>while\<close> loop of \<open>getAllMethodNames\<close>. It ends at \<open>null\<close> or at \<open>Object.prototype\<close>;
  on a chain that reaches neither it does not end.
\<close>

partial_function (option) getAllMethodNames_loop ::
  "heap \<Rightarrow> addr option \<Rightarrow> key list \<Rightarrow> key list option" where
  "getAllMethodNames_loop h p methods =
     (case p of
        None \<Rightarrow> Some methods
      | Some a \<Rightarrow>
          if a = ObjectPrototype then Some methods
          else getAllMethodNames_loop h (getPrototypeOf h a) (add_level h a methods))"

declare getAllMethodNames_loop.simps [code]

definition getAllMethodNames :: "heap \<Rightarrow> addr \<Rightarrow> key list option" where
  "getAllMethodNames h ob = getAllMethodNames_loop h (getPrototypeOf h ob) []"

text \<open>
  The options of \<open>autoBind\<close>. A field that is not given is \<open>None\<close>; \<open>lazy\<close> not given is
  false. \<open>pattern\<close> is the regular expression's \<open>test\<close> on a string, for a pattern without
  the global or sticky flag, whose \<open>test\<close> depends on the string alone.
\<close>

record options =
  o_include :: "key list option"
  o_exclude :: "key list option"
  o_pattern :: "(string \<Rightarrow> bool) option"
  o_lazy :: bool

definition no_options :: options where
  "no_options = \<lparr>o_include = None, o_exclude = None, o_pattern = None, o_lazy = False\<rparr>"

fun not_builtin :: "key \<Rightarrow> bool" where
  "not_builtin (KSym n) = True"
| "not_builtin (KStr s) = (s \<notin> set BUILTIN_OBJECT_METHODS)"

fun pattern_test :: "(string \<Rightarrow> bool) \<Rightarrow> key \<Rightarrow> bool" where
  "pattern_test p (KStr s) = p s"
| "pattern_test p (KSym n) = False"

definition filterMethods :: "key list \<Rightarrow> options \<Rightarrow> key list" where
  "filterMethods methods opts =
     (let filtered = methods;
          filtered = filter not_builtin filtered;
          filtered = (case o_include opts of None \<Rightarrow> filtered
                      | Some inc \<Rightarrow> filter (\<lambda>m. m \<in> set inc) filtered);
          filtered = (case o_exclude opts of None \<Rightarrow> filtered
                      | Some exc \<Rightarrow> filter (\<lambda>m. m \<notin> set exc) filtered);
          filtered = (case o_pattern opts of None \<Rightarrow> filtered
                      | Some p \<Rightarrow> filter (pattern_test p) filtered)
      in filtered)"

section \<open>Calling functions and reading properties\<close>

text \<open>
  Functions the module creates take \<open>Function.prototype\<close> as prototype; it is the object at
  address 1. A closure has no own property the module reads.
\<close>

definition FunctionPrototype :: addr where
  "FunctionPrototype = 1"

definition closure :: "code \<Rightarrow> obj" where
  "closure c = \<lparr>props = [], proto = Some FunctionPrototype, extensible = True, code = Some c\<rparr>"

text \<open>The body of the getter that \<open>bindLazy\<close> installs.\<close>

definition lazy_getter_body :: "heap \<Rightarrow> addr \<Rightarrow> addr \<Rightarrow> key \<Rightarrow> val completion \<times> heap" where
  "lazy_getter_body h originalFn self method =
     (let (boundFn, h1) = bind_fn h originalFn (VObj self)
      in case defineProperty h1 self method (bound_value_desc (VObj boundFn)) of
           (Throw e, h2) \<Rightarrow> (Throw e, h2)
         | (Normal u, h2) \<Rightarrow> (Normal (VObj boundFn), h2))"

text \<open>The body of the getter in the descriptor that \<open>bound\<close> returns, run with receiver \<open>this\<close>.\<close>

definition bound_getter_body ::
  "heap \<Rightarrow> val \<Rightarrow> key \<Rightarrow> addr \<Rightarrow> val \<Rightarrow> val completion \<times> heap" where
  "bound_getter_body h target key fn this =
     (if this = target then (Normal (VObj fn), h)
      else
        let (boundFn, h1) = bind_fn h fn this
        in case this of
             VObj a \<Rightarrow>
               (case defineProperty h1 a key (bound_value_desc (VObj boundFn)) of
                  (Throw e, h2) \<Rightarrow> (Throw e, h2)
                | (Normal u, h2) \<Rightarrow> (Normal (VObj boundFn), h2))
           | _ \<Rightarrow> (Throw (TypeError ''Object.defineProperty called on non-object''), h1))"

text \<open>
  Calling a value. A bound function calls its target with the receiver it was bound to,
  whatever receiver it is called through; the arguments go on unchanged.
\<close>

partial_function (option) call :: "bodies \<Rightarrow> heap \<Rightarrow> val \<Rightarrow> val \<Rightarrow> val list \<Rightarrow> val result" where
  "call B h f this args =
     (case fn_code h f of
        None \<Rightarrow> Some (Throw (TypeError ''not a function''), h)
      | Some (UserFn n) \<Rightarrow> B (UserFn n) this args h
      | Some (WrappedCtor original) \<Rightarrow> B (WrappedCtor original) this args h
      | Some (BoundFn target boundThis) \<Rightarrow> call B h (VObj target) boundThis args
      | Some (LazyGetter originalFn self method) \<Rightarrow>
          Some (lazy_getter_body h originalFn self method)
      | Some (BoundGetter target key fn) \<Rightarrow> Some (bound_getter_body h target key fn this))"

declare call.simps [code]

text \<open>
  The property a read finds: the first own property with the key on the way up the
  prototype chain, \<open>Object.prototype\<close> included.
\<close>

partial_function (option) find_property :: "heap \<Rightarrow> addr \<Rightarrow> key \<Rightarrow> slot option option" where
  "find_property h a k =
     (case getOwnPropertyDescriptor h a k of
        Some p \<Rightarrow> Some (Some p)
      | None \<Rightarrow>
          (case getPrototypeOf h a of
             None \<Rightarrow> Some None
           | Some b \<Rightarrow> find_property h b k))"

declare find_property.simps [code]

text \<open>\<open>ob[k]\<close>: a data property gives its value, an accessor runs its getter on \<open>ob\<close>.\<close>

definition read_property :: "bodies \<Rightarrow> heap \<Rightarrow> addr \<Rightarrow> key \<Rightarrow> val result" where
  "read_property B h ob k =
     (case find_property h ob k of
        None \<Rightarrow> None
      | Some None \<Rightarrow> Some (Normal VUndef, h)
      | Some (Some (DataP v w e c)) \<Rightarrow> Some (Normal v, h)
      | Some (Some (AccP g s e c)) \<Rightarrow>
          if g = VUndef then Some (Normal VUndef, h) else call B h g (VObj ob) [])"

section \<open>Eager and lazy binding\<close>

fun bindEager :: "bodies \<Rightarrow> heap \<Rightarrow> addr \<Rightarrow> key list \<Rightarrow> unit result" where
  "bindEager B h self [] = Some (Normal (), h)"
| "bindEager B h self (method # methods) =
     (case read_property B h self method of
        None \<Rightarrow> None
      | Some (Throw e, h1) \<Rightarrow> Some (Throw e, h1)
      | Some (Normal v, h1) \<Rightarrow>
          (case v of
             VObj f \<Rightarrow>
               if isCallable h1 v then
                 (let (b, h2) = bind_fn h1 f (VObj self)
                  in case defineProperty h2 self method (bound_value_desc (VObj b)) of
                       (Throw e, h3) \<Rightarrow> Some (Throw e, h3)
                     | (Normal u, h3) \<Rightarrow> bindEager B h3 self methods)
               else bindEager B h1 self methods
           | _ \<Rightarrow> bindEager B h1 self methods))"

partial_function (option) findDescriptorInChain_loop ::
  "heap \<Rightarrow> addr option \<Rightarrow> key \<Rightarrow> slot option option" where
  "findDescriptorInChain_loop h p k =
     (case p of
        None \<Rightarrow> Some None
      | Some a \<Rightarrow>
          if a = ObjectPrototype then Some None
          else
            (case getOwnPropertyDescriptor h a k of
               Some desc \<Rightarrow> Some (Some desc)
             | None \<Rightarrow> findDescriptorInChain_loop h (getPrototypeOf h a) k))"

declare findDescriptorInChain_loop.simps [code]

definition findDescriptorInChain :: "heap \<Rightarrow> addr \<Rightarrow> key \<Rightarrow> slot option option" where
  "findDescriptorInChain h ob k = findDescriptorInChain_loop h (getPrototypeOf h ob) k"

text \<open>
  The descriptor \<open>bindLazy\<close> looks at for a name: the own descriptor of the immediate
  prototype, else the first one \<open>findDescriptorInChain\<close> meets.
  \<open>Object.getOwnPropertyDescriptor\<close> throws on a \<open>null\<close> prototype.
\<close>

definition lazy_descriptor :: "heap \<Rightarrow> addr \<Rightarrow> key \<Rightarrow> (slot option completion) option" where
  "lazy_descriptor h self method =
     (case getPrototypeOf h self of
        None \<Rightarrow> Some (Throw (TypeError ''Cannot convert undefined or null to object''))
      | Some parent \<Rightarrow>
          (case getOwnPropertyDescriptor h parent method of
             Some d \<Rightarrow> Some (Normal (Some d))
           | None \<Rightarrow> map_option Normal (findDescriptorInChain h self method)))"

fun bindLazy :: "heap \<Rightarrow> addr \<Rightarrow> key list \<Rightarrow> unit result" where
  "bindLazy h self [] = Some (Normal (), h)"
| "bindLazy h self (method # methods) =
     (case lazy_descriptor h self method of
        None \<Rightarrow> None
      | Some (Throw e) \<Rightarrow> Some (Throw e, h)
      | Some (Normal None) \<Rightarrow> bindLazy h self methods
      | Some (Normal (Some descriptor)) \<Rightarrow>
          (case desc_value descriptor of
             VObj originalFn \<Rightarrow>
               if isCallable h (VObj originalFn) then
                 (let (g, h1) = alloc h (closure (LazyGetter originalFn self method))
                  in case defineProperty h1 self method (getter_desc (VObj g)) of
                       (Throw e, h2) \<Rightarrow> Some (Throw e, h2)
                     | (Normal u, h2) \<Rightarrow> bindLazy h2 self methods)
               else bindLazy h self methods
           | _ \<Rightarrow> bindLazy h self methods))"

section \<open>The entry points\<close>

text \<open>
  The second argument of \<open>autoBind\<close>: left out, an options object, or a first name followed
  by more names.
\<close>

datatype optarg = Omitted | Given options | Shorthand string "string list"

fun shorthand_options :: "optarg \<Rightarrow> options option" where
  "shorthand_options (Shorthand s rest) =
     Some (no_options\<lparr>o_include := Some (map KStr (s # rest))\<rparr>)"
| "shorthand_options (Given opts) = Some opts"
| "shorthand_options Omitted = None"

definition autoBind :: "bodies \<Rightarrow> heap \<Rightarrow> addr \<Rightarrow> optarg \<Rightarrow> val result" where
  "autoBind B h self arg =
     (let options = shorthand_options arg
      in case getAllMethodNames h self of
           None \<Rightarrow> None
         | Some allMethods \<Rightarrow>
             (let methods = filterMethods allMethods (or_else options no_options)
              in (case (if (case options of None \<Rightarrow> False | Some opts \<Rightarrow> o_lazy opts)
                        then bindLazy h self methods
                        else bindEager B h self methods) of
                    None \<Rightarrow> None
                  | Some (Throw e, h') \<Rightarrow> Some (Throw e, h')
                  | Some (Normal u, h') \<Rightarrow> Some (Normal (VObj self), h'))))"




section \<open>The filtering pipeline\<close>











section \<open>Well-formed heaps and what binding may change\<close>

text \<open>
  A heap is well formed when the references the module follows stay inside it: the
  prototype links and the object values of data properties. \<open>Function.prototype\<close> is an
  object of the heap and \<open>Object.prototype\<close> has no prototype.
\<close>

fun slot_ok :: "nat \<Rightarrow> slot \<Rightarrow> bool" where
  "slot_ok n (DataP v w e c) = (case v of VObj b \<Rightarrow> b < n | _ \<Rightarrow> True)"
| "slot_ok n (AccP g s e c) = True"

definition heap_ok :: "heap \<Rightarrow> bool" where
  "heap_ok h =
     (FunctionPrototype < length h \<and> getPrototypeOf h ObjectPrototype = None \<and>
      (\<forall>ob \<in> set h.
         (case proto ob of None \<Rightarrow> True | Some p \<Rightarrow> p < length h)
         \<and> (\<forall>kp \<in> set (props ob). slot_ok (length h) (snd kp))))"

lemma heap_ok_nth:
  "heap_ok h \<Longrightarrow> a < length h \<Longrightarrow>
   (case proto (h ! a) of None \<Rightarrow> True | Some p \<Rightarrow> p < length h)
   \<and> (\<forall>kp \<in> set (props (h ! a)). slot_ok (length h) (snd kp))"
proof -
  assume "heap_ok h" and "a < length h"
  then have "h ! a \<in> set h" by simp
  with \<open>heap_ok h\<close> show ?thesis unfolding heap_ok_def by blast
qed

lemma heap_ok_intro:
  assumes "FunctionPrototype < length h" "getPrototypeOf h ObjectPrototype = None"
    "\<And>a p. a < length h \<Longrightarrow> proto (h ! a) = Some p \<Longrightarrow> p < length h"
    "\<And>a kp. a < length h \<Longrightarrow> kp \<in> set (props (h ! a)) \<Longrightarrow> slot_ok (length h) (snd kp)"
  shows "heap_ok h"
proof -
  have "\<And>ob. ob \<in> set h \<Longrightarrow>
          (case proto ob of None \<Rightarrow> True | Some p \<Rightarrow> p < length h)
          \<and> (\<forall>kp \<in> set (props ob). slot_ok (length h) (snd kp))"
  proof -
    fix ob assume "ob \<in> set h"
    then obtain a where a: "a < length h" "ob = h ! a" by (auto simp: in_set_conv_nth)
    with assms(3)[of a] assms(4)[of a] show
      "(case proto ob of None \<Rightarrow> True | Some p \<Rightarrow> p < length h)
          \<and> (\<forall>kp \<in> set (props ob). slot_ok (length h) (snd kp))"
      by (auto split: option.splits)
  qed
  with assms(1,2) show ?thesis unfolding heap_ok_def by blast
qed

text \<open>
  \<open>changes_only self K h h'\<close>: from \<open>h\<close> to \<open>h'\<close> objects were added, and of the objects of
  \<open>h\<close> only \<open>self\<close> differs, and only in own properties with a key in \<open>K\<close>.
\<close>

definition changes_only :: "addr \<Rightarrow> key set \<Rightarrow> heap \<Rightarrow> heap \<Rightarrow> bool" where
  "changes_only self K h h' =
     (length h \<le> length h' \<and>
      (\<forall>a<length h.
         proto (h' ! a) = proto (h ! a) \<and> code (h' ! a) = code (h ! a)
         \<and> extensible (h' ! a) = extensible (h ! a)
         \<and> (a \<noteq> self \<longrightarrow> h' ! a = h ! a)
         \<and> (\<forall>k. k \<notin> K \<longrightarrow> map_of (props (h' ! a)) k = map_of (props (h ! a)) k)))"

lemma changes_only_refl: "changes_only self K h h"
  by (simp add: changes_only_def)

lemma changes_only_trans:
  "changes_only self K h h1 \<Longrightarrow> changes_only self K' h1 h2 \<Longrightarrow> changes_only self (K \<union> K') h h2"
  unfolding changes_only_def by (auto simp: le_trans) 


lemma changes_only_alloc: "alloc h ob = (a, h1) \<Longrightarrow> changes_only self {} h h1"
  unfolding changes_only_def alloc_def by (auto simp: nth_append)

lemma alloc_result: "alloc h ob = (a, h1) \<Longrightarrow> a = length h \<and> h1 = h @ [ob]"
  by (auto simp: alloc_def)

lemma set_prop_changes: "changes_only self {k} h (set_prop h self k p)"
proof (cases "self < length h")
  case True
  then show ?thesis
    unfolding changes_only_def set_prop_def
    by (auto simp: nth_list_update update_conv')
next
  case False
  then show ?thesis
    unfolding changes_only_def set_prop_def by simp
qed

lemma defineProperty_changes:
  "defineProperty h self k d = (c, h') \<Longrightarrow> changes_only self {k} h h'"
  unfolding defineProperty_def
  by (auto simp: changes_only_refl set_prop_changes split: option.splits if_splits)



lemma changes_only_proto:
  "changes_only self K h h' \<Longrightarrow> a < length h \<Longrightarrow> getPrototypeOf h' a = getPrototypeOf h a"
  unfolding changes_only_def getPrototypeOf_def lookup_def by auto

lemma changes_only_own:
  "changes_only self K h h' \<Longrightarrow> a < length h \<Longrightarrow> k \<notin> K \<Longrightarrow>
   getOwnPropertyDescriptor h' a k = getOwnPropertyDescriptor h a k"
  unfolding changes_only_def getOwnPropertyDescriptor_def lookup_def by auto

lemma changes_only_own_other:
  "changes_only self K h h' \<Longrightarrow> a < length h \<Longrightarrow> a \<noteq> self \<Longrightarrow>
   getOwnPropertyDescriptor h' a k = getOwnPropertyDescriptor h a k"
  unfolding changes_only_def getOwnPropertyDescriptor_def lookup_def by auto

lemma changes_only_code:
  "changes_only self K h h' \<Longrightarrow> a < length h \<Longrightarrow> fn_code h' (VObj a) = fn_code h (VObj a)"
  unfolding changes_only_def fn_code_def lookup_def by auto


lemma heap_ok_proto: "heap_ok h \<Longrightarrow> a < length h \<Longrightarrow> getPrototypeOf h a = Some p \<Longrightarrow> p < length h"
  using heap_ok_nth[of h a] unfolding getPrototypeOf_def lookup_def
  by (auto split: option.splits if_splits)




section \<open>Prototype chains\<close>

text \<open>
  \<open>chain h p ps\<close>: the walk that starts at \<open>p\<close> visits the objects \<open>ps\<close> and ends, at \<open>null\<close>
  or at \<open>Object.prototype\<close>. The loops of the module end exactly on such a chain.
\<close>

inductive chain :: "heap \<Rightarrow> addr option \<Rightarrow> addr list \<Rightarrow> bool" where
  chain_null: "chain h None []"
| chain_root: "chain h (Some ObjectPrototype) []"
| chain_step: "a \<noteq> ObjectPrototype \<Longrightarrow> chain h (getPrototypeOf h a) ps \<Longrightarrow> chain h (Some a) (a # ps)"

inductive_cases chain_SomeE: "chain h (Some a) ps"
inductive_cases chain_NoneE: "chain h None ps"

lemma chain_det: "chain h p ps \<Longrightarrow> chain h p qs \<Longrightarrow> ps = qs"
proof (induction arbitrary: qs rule: chain.induct)
  case (chain_null h)
  then show ?case by (auto elim: chain_NoneE)
next
  case (chain_root h)
  then show ?case by (auto elim: chain_SomeE)
next
  case (chain_step a h ps)
  from chain_step.prems chain_step.hyps(1) obtain qs' where
    "qs = a # qs'" "chain h (getPrototypeOf h a) qs'"
    by (auto elim: chain_SomeE)
  with chain_step.IH show ?case by simp
qed

lemma chain_suffix:
  "chain h p ps \<Longrightarrow> a \<in> set ps \<Longrightarrow>
   \<exists>qs. chain h (getPrototypeOf h a) qs \<and> length qs < length ps"
proof (induction rule: chain.induct)
  case (chain_step b h ps)
  show ?case
  proof (cases "a = b")
    case True
    with chain_step.hyps show ?thesis by auto
  next
    case False
    with chain_step.prems have "a \<in> set ps" by simp
    with chain_step.IH obtain qs where "chain h (getPrototypeOf h a) qs" "length qs < length ps"
      by blast
    then show ?thesis by (intro exI[of _ qs]) simp
  qed
qed simp_all

lemma chain_not_self: "chain h (getPrototypeOf h self) ps \<Longrightarrow> self \<notin> set ps"
proof
  assume c: "chain h (getPrototypeOf h self) ps" and "self \<in> set ps"
  then obtain qs where "chain h (getPrototypeOf h self) qs" "length qs < length ps"
    using chain_suffix by blast
  with c chain_det show False by fastforce
qed

lemma chain_in_heap:
  "chain h p ps \<Longrightarrow> heap_ok h \<Longrightarrow> (\<And>a. p = Some a \<Longrightarrow> a < length h) \<Longrightarrow>
   a \<in> set ps \<Longrightarrow> a < length h"
proof (induction rule: chain.induct)
  case (chain_step b h ps)
  have b: "b < length h" using chain_step.prems(2) by simp
  show ?case
  proof (cases "a = b")
    case True
    with b show ?thesis by simp
  next
    case False
    with chain_step.prems have "a \<in> set ps" by simp
    moreover have "\<And>c. getPrototypeOf h b = Some c \<Longrightarrow> c < length h"
      using heap_ok_proto[OF chain_step.prems(1) b] by simp
    ultimately show ?thesis using chain_step.IH chain_step.prems(1) by blast
  qed
qed simp_all

lemma chain_changes:
  "chain h p ps \<Longrightarrow> changes_only self K h h' \<Longrightarrow> self \<notin> set ps \<Longrightarrow>
   (\<And>a. a \<in> set ps \<Longrightarrow> a < length h) \<Longrightarrow> chain h' p ps"
proof (induction rule: chain.induct)
  case (chain_step a h ps)
  have "getPrototypeOf h' a = getPrototypeOf h a"
    using chain_step.prems by (simp add: changes_only_proto)
  moreover have "chain h' (getPrototypeOf h a) ps"
    using chain_step by simp
  ultimately show ?case using chain_step.hyps(1) by (simp add: chain.chain_step)
qed (simp_all add: chain.intros)

definition levels :: "heap \<Rightarrow> addr list \<Rightarrow> key list \<Rightarrow> key list" where
  "levels h ps ms = foldl (\<lambda>ms a. add_level h a ms) ms ps"

lemma getAllMethodNames_loop_chain:
  "chain h p ps \<Longrightarrow> getAllMethodNames_loop h p ms = Some (levels h ps ms)"
proof (induction arbitrary: ms rule: chain.induct)
  case (chain_null h)
  show ?case by (subst getAllMethodNames_loop.simps) (simp add: levels_def)
next
  case (chain_root h)
  show ?case by (subst getAllMethodNames_loop.simps) (simp add: levels_def)
next
  case (chain_step a h ps)
  have "getAllMethodNames_loop h (getPrototypeOf h a) (add_level h a ms)
        = Some (levels h ps (add_level h a ms))"
    using chain_step.IH .
  with chain_step.hyps(1) show ?case
    by (subst getAllMethodNames_loop.simps) (simp add: levels_def)
qed

lemma getAllMethodNames_loop_ends_aux:
  assumes "getAllMethodNames_loop h0 p0 ms0 = Some r0"
  shows "\<exists>ps. chain h0 p0 ps"
proof (rule getAllMethodNames_loop.raw_induct[where P = "\<lambda>h p ms r. \<exists>ps. chain h p ps", OF _ assms])
  fix f h p ms r
  assume IH: "\<And>h p ms y. f h p ms = Some y \<Longrightarrow> \<exists>ps. chain h p ps"
    and eq: "(case p of None \<Rightarrow> Some ms
              | Some a \<Rightarrow> if a = ObjectPrototype then Some ms
                         else f h (getPrototypeOf h a) (add_level h a ms)) = Some r"
  show "\<exists>ps. chain h p ps"
  proof (cases p)
    case None
    then show ?thesis by (auto intro: chain.intros)
  next
    case (Some a)
    show ?thesis
    proof (cases "a = ObjectPrototype")
      case True
      with Some show ?thesis by (auto intro: chain.intros)
    next
      case False
      with eq Some have "f h (getPrototypeOf h a) (add_level h a ms) = Some r" by simp
      with IH obtain ps where "chain h (getPrototypeOf h a) ps" by blast
      with False Some show ?thesis by (auto intro: chain.intros)
    qed
  qed
qed

lemma getAllMethodNames_chain:
  "getAllMethodNames h self = Some all \<Longrightarrow>
   \<exists>ps. chain h (getPrototypeOf h self) ps \<and> all = levels h ps []"
  unfolding getAllMethodNames_def
  using getAllMethodNames_loop_ends_aux getAllMethodNames_loop_chain
  by (metis option.inject)

fun first_desc :: "heap \<Rightarrow> addr list \<Rightarrow> key \<Rightarrow> slot option" where
  "first_desc h [] k = None"
| "first_desc h (a # ps) k =
     (case getOwnPropertyDescriptor h a k of Some d \<Rightarrow> Some d | None \<Rightarrow> first_desc h ps k)"

lemma findDescriptorInChain_loop_chain:
  "chain h p ps \<Longrightarrow> findDescriptorInChain_loop h p k = Some (first_desc h ps k)"
proof (induction rule: chain.induct)
  case (chain_null h)
  show ?case by (subst findDescriptorInChain_loop.simps) simp
next
  case (chain_root h)
  show ?case by (subst findDescriptorInChain_loop.simps) simp
next
  case (chain_step a h ps)
  then show ?case
    by (subst findDescriptorInChain_loop.simps) (simp split: option.splits)
qed


lemma heap_ok_value:
  "heap_ok h \<Longrightarrow> a < length h \<Longrightarrow> getOwnPropertyDescriptor h a k = Some d \<Longrightarrow>
   desc_value d = VObj b \<Longrightarrow> b < length h"
proof -
  assume ok: "heap_ok h" and a: "a < length h"
    and own: "getOwnPropertyDescriptor h a k = Some d" and v: "desc_value d = VObj b"
  from own a have "(k, d) \<in> set (props (h ! a))"
    by (auto simp: getOwnPropertyDescriptor_def lookup_def dest: map_of_SomeD)
  with heap_ok_nth[OF ok a] have "slot_ok (length h) d" by fastforce
  with v show ?thesis by (cases d) (auto split: val.splits)
qed

lemma isCallable_changes:
  "changes_only self K h h' \<Longrightarrow> b < length h \<Longrightarrow> isCallable h' (VObj b) = isCallable h (VObj b)"
  by (simp add: isCallable_def changes_only_code)

lemma isCallable_not_object: "(\<And>b. v \<noteq> VObj b) \<Longrightarrow> \<not> isCallable h v"
  by (cases v) (auto simp: isCallable_def fn_code_def)






lemma first_desc_changes:
  assumes "changes_only self K h h'"
  shows "self \<notin> set ps \<Longrightarrow> (\<And>a. a \<in> set ps \<Longrightarrow> a < length h) \<Longrightarrow>
         first_desc h' ps k = first_desc h ps k"
proof (induction ps)
  case Nil
  show ?case by simp
next
  case (Cons a ps)
  have "getOwnPropertyDescriptor h' a k = getOwnPropertyDescriptor h a k"
    using Cons.prems assms by (intro changes_only_own_other) auto
  with Cons show ?case by (simp split: option.splits)
qed







text \<open>What the chain says about the descriptor \<open>bindLazy\<close> looks at.\<close>

lemma lazy_descriptor_chain:
  assumes "chain h (getPrototypeOf h self) ps"
  shows "lazy_descriptor h self m =
     (case getPrototypeOf h self of
        None \<Rightarrow> Some (Throw (TypeError ''Cannot convert undefined or null to object''))
      | Some parent \<Rightarrow>
          Some (Normal (case getOwnPropertyDescriptor h parent m of
                          Some d \<Rightarrow> Some d | None \<Rightarrow> first_desc h ps m)))"
  unfolding lazy_descriptor_def findDescriptorInChain_def
  using findDescriptorInChain_loop_chain[OF assms, of m]
  by (auto split: option.splits)

lemma parent_not_self:
  assumes "heap_ok h" "chain h (getPrototypeOf h self) ps" "getPrototypeOf h self = Some parent"
  shows "parent \<noteq> self"
proof
  assume eq: "parent = self"
  show False
  proof (cases "parent = ObjectPrototype")
    case True
    with assms(1) assms(3) eq show False by (simp add: heap_ok_def)
  next
    case False
    with assms(2) assms(3) have "parent \<in> set ps" by (auto elim: chain_SomeE)
    with eq chain_not_self[OF assms(2)] show False by simp
  qed
qed

lemma lazy_descriptor_changes:
  assumes ok: "heap_ok h" and self: "self < length h"
    and ch: "chain h (getPrototypeOf h self) ps" and co: "changes_only self K h h'"
  shows "lazy_descriptor h' self m = lazy_descriptor h self m"
proof -
  have pr: "getPrototypeOf h' self = getPrototypeOf h self"
    using co self by (simp add: changes_only_proto)
  have inh: "\<And>a. a \<in> set ps \<Longrightarrow> a < length h"
    using chain_in_heap[OF ch ok] heap_ok_proto[OF ok self] by blast
  have ns: "self \<notin> set ps" using chain_not_self[OF ch] .
  have ch': "chain h' (getPrototypeOf h' self) ps"
    using chain_changes[OF ch co ns inh] pr by simp
  have fd: "first_desc h' ps m = first_desc h ps m"
    using first_desc_changes[OF co ns inh] by simp
  show ?thesis
  proof (cases "getPrototypeOf h self")
    case None
    with pr show ?thesis by (simp add: lazy_descriptor_def)
  next
    case (Some parent)
    have "parent \<noteq> self" using parent_not_self[OF ok ch Some] .
    moreover have "parent < length h" using heap_ok_proto[OF ok self Some] .
    ultimately have "getOwnPropertyDescriptor h' parent m = getOwnPropertyDescriptor h parent m"
      using co by (simp add: changes_only_own_other)
    with Some pr fd show ?thesis
      by (simp add: lazy_descriptor_chain[OF ch] lazy_descriptor_chain[OF ch'] split: option.splits)
  qed
qed


lemma chain_self_changes:
  assumes ok: "heap_ok h" and self: "self < length h"
    and ch: "chain h (getPrototypeOf h self) ps" and co: "changes_only self K h h'"
  shows "chain h' (getPrototypeOf h' self) ps"
proof -
  have pr: "getPrototypeOf h' self = getPrototypeOf h self"
    using co self by (simp add: changes_only_proto)
  have inh: "\<And>a. a \<in> set ps \<Longrightarrow> a < length h"
    using chain_in_heap[OF ch ok] heap_ok_proto[OF ok self] by blast
  show ?thesis
    using chain_changes[OF ch co chain_not_self[OF ch] inh] pr by simp
qed


lemma update_member:
  "x \<in> set (AList.update k p xs) \<Longrightarrow> x = (k, p) \<or> x \<in> set xs"
  by (induction xs) (auto split: if_splits)

lemma slot_ok_mono: "slot_ok n p \<Longrightarrow> n \<le> n' \<Longrightarrow> slot_ok n' p"
  by (cases p) (auto split: val.splits)

lemma heap_ok_alloc:
  assumes "heap_ok h" "case proto ob of None \<Rightarrow> True | Some p \<Rightarrow> p < length h"
    "\<forall>kp \<in> set (props ob). slot_ok (Suc (length h)) (snd kp)"
  shows "heap_ok (h @ [ob])"
proof -
  have pr: "\<And>a p. a < Suc (length h) \<Longrightarrow> proto ((h @ [ob]) ! a) = Some p \<Longrightarrow> p < Suc (length h)"
  proof -
    fix a p assume a: "a < Suc (length h)" and p: "proto ((h @ [ob]) ! a) = Some p"
    show "p < Suc (length h)"
    proof (cases "a < length h")
      case True
      with heap_ok_nth[OF assms(1) True] p have "p < length h"
        by (auto simp: nth_append split: option.splits)
      then show ?thesis by simp
    next
      case False
      with a have "a = length h" by simp
      with assms(2) p show ?thesis by (auto split: option.splits)
    qed
  qed
  have sl: "\<And>a kp. a < Suc (length h) \<Longrightarrow> kp \<in> set (props ((h @ [ob]) ! a))
              \<Longrightarrow> slot_ok (Suc (length h)) (snd kp)"
  proof -
    fix a kp assume a: "a < Suc (length h)" and kp: "kp \<in> set (props ((h @ [ob]) ! a))"
    show "slot_ok (Suc (length h)) (snd kp)"
    proof (cases "a < length h")
      case True
      with heap_ok_nth[OF assms(1) True] kp have "slot_ok (length h) (snd kp)"
        by (auto simp: nth_append)
      then show ?thesis by (rule slot_ok_mono) simp
    next
      case False
      with a have "a = length h" by simp
      with assms(3) kp show ?thesis by auto
    qed
  qed
  have "FunctionPrototype < Suc (length h)"
    and "getPrototypeOf (h @ [ob]) ObjectPrototype = None"
    using assms(1)
    by (auto simp: heap_ok_def getPrototypeOf_def lookup_def nth_append ObjectPrototype_def
        FunctionPrototype_def split: if_splits)
  with pr sl show ?thesis by (intro heap_ok_intro) auto
qed

lemma heap_ok_set_prop:
  assumes "heap_ok h" "slot_ok (length h) p"
  shows "heap_ok (set_prop h a k p)"
proof (cases "a < length h")
  case False
  then have "set_prop h a k p = h" by (simp add: set_prop_def list_update_beyond)
  then show ?thesis using assms(1) by simp
next
  case True
  have len: "length (set_prop h a k p) = length h" by (simp add: set_prop_def)
  have pr: "\<And>b. b < length h \<Longrightarrow> proto (set_prop h a k p ! b) = proto (h ! b)"
    using True by (simp add: set_prop_def nth_list_update)
  have sl: "\<And>b kp. b < length h \<Longrightarrow> kp \<in> set (props (set_prop h a k p ! b))
              \<Longrightarrow> slot_ok (length h) (snd kp)"
  proof -
    fix b kp assume b: "b < length h" and kp: "kp \<in> set (props (set_prop h a k p ! b))"
    show "slot_ok (length h) (snd kp)"
    proof (cases "b = a")
      case True
      with kp b have "kp \<in> set (AList.update k p (props (h ! a)))"
        by (simp add: set_prop_def)
      then have "kp = (k, p) \<or> kp \<in> set (props (h ! a))" by (rule update_member)
      with assms(2) heap_ok_nth[OF assms(1) b] True show ?thesis by auto
    next
      case False
      with kp b have "kp \<in> set (props (h ! b))" by (simp add: set_prop_def)
      with heap_ok_nth[OF assms(1) b] show ?thesis by auto
    qed
  qed
  have "getPrototypeOf (set_prop h a k p) ObjectPrototype = None"
    using assms(1) pr[of ObjectPrototype] len
    by (auto simp: heap_ok_def getPrototypeOf_def lookup_def split: if_splits)
  moreover have "\<And>b q. b < length h \<Longrightarrow> proto (h ! b) = Some q \<Longrightarrow> q < length h"
  proof -
    fix b q assume "b < length h" "proto (h ! b) = Some q"
    with heap_ok_nth[OF assms(1), of b] show "q < length h" by simp
  qed
  moreover have "FunctionPrototype < length h" using assms(1) by (simp add: heap_ok_def)
  ultimately show ?thesis using len pr sl by (intro heap_ok_intro) auto
qed

definition desc_ok :: "nat \<Rightarrow> descriptor \<Rightarrow> bool" where
  "desc_ok n d = (case d_value d of Some (VObj b) \<Rightarrow> b < n | _ \<Rightarrow> True)"

lemma slot_ok_new_prop: "desc_ok n d \<Longrightarrow> slot_ok n (new_prop d)"
  by (auto simp: desc_ok_def new_prop_def or_else_def split: option.splits val.splits)

lemma slot_ok_changed_prop: "desc_ok n d \<Longrightarrow> slot_ok n cur \<Longrightarrow> slot_ok n (changed_prop cur d)"
  by (cases cur) (auto simp: desc_ok_def or_else_def split: option.splits val.splits)

lemma heap_ok_defineProperty:
  assumes "heap_ok h" "desc_ok (length h) d" "defineProperty h a k d = (c, h')"
  shows "heap_ok h'"
proof (cases "lookup h a")
  case None
  with assms show ?thesis by (simp add: defineProperty_def)
next
  case (Some ob)
  then have a: "a < length h" and ob: "ob = h ! a" by (auto simp: lookup_def split: if_splits)
  show ?thesis
  proof (cases "map_of (props ob) k")
    case None
    with Some assms show ?thesis
      by (auto simp: defineProperty_def heap_ok_set_prop slot_ok_new_prop split: if_splits)
  next
    case (Some cur)
    then have "(k, cur) \<in> set (props (h ! a))" using ob by (auto dest: map_of_SomeD)
    with heap_ok_nth[OF assms(1) a] have "slot_ok (length h) cur" by fastforce
    with Some \<open>lookup h a = Some ob\<close> assms show ?thesis
      by (auto simp: defineProperty_def heap_ok_set_prop slot_ok_changed_prop split: if_splits)
  qed
qed

lemma defineProperty_throw: "defineProperty h a k d = (Throw e, h') \<Longrightarrow> h' = h"
  by (auto simp: defineProperty_def split: option.splits if_splits)




section \<open>Lazy binding, step by step\<close>

lemma bindLazy_Cons_cases:
  assumes "bindLazy h self (m # ms) = Some (c, h')"
  obtains
    (throw) e where "lazy_descriptor h self m = Some (Throw e)" "c = Throw e" "h' = h"
  | (skip) dopt where "lazy_descriptor h self m = Some (Normal dopt)"
      "case dopt of None \<Rightarrow> True | Some d \<Rightarrow> \<not> isCallable h (desc_value d)"
      "bindLazy h self ms = Some (c, h')"
  | (refused) d orig e where "lazy_descriptor h self m = Some (Normal (Some d))"
      "desc_value d = VObj orig" "isCallable h (VObj orig)"
      "defineProperty (h @ [closure (LazyGetter orig self m)]) self m
         (getter_desc (VObj (length h))) = (Throw e, h')" "c = Throw e"
  | (install) d orig h2 where "lazy_descriptor h self m = Some (Normal (Some d))"
      "desc_value d = VObj orig" "isCallable h (VObj orig)"
      "defineProperty (h @ [closure (LazyGetter orig self m)]) self m
         (getter_desc (VObj (length h))) = (Normal (), h2)"
      "bindLazy h2 self ms = Some (c, h')"
proof (cases "lazy_descriptor h self m")
  case None
  with assms show ?thesis by simp
next
  case (Some r)
  note ld = Some
  show ?thesis
  proof (cases r)
    case (Throw e)
    show ?thesis
      by (rule throw[of e]) (use ld Throw assms in simp_all)
  next
    case (Normal dopt)
    note r = Normal
    show ?thesis
    proof (cases dopt)
      case None
      show ?thesis
        by (rule skip[of None]) (use ld r None assms in simp_all)
    next
      case (Some d)
      note d = Some
      show ?thesis
      proof (cases "isCallable h (desc_value d)")
        case False
        have "bindLazy h self ms = Some (c, h')"
          using assms ld r d False by (auto split: val.splits if_splits)
        then show ?thesis
          by (intro skip[of "Some d"]) (use ld r d False in simp_all)
      next
        case True
        then obtain orig where orig: "desc_value d = VObj orig"
          using isCallable_not_object by (cases "desc_value d") auto
        show ?thesis
        proof (cases "defineProperty (h @ [closure (LazyGetter orig self m)]) self m
                 (getter_desc (VObj (length h)))")
          case (Pair c2 h2)
          show ?thesis
          proof (cases c2)
            case (Throw e)
            have "c = completion.Throw e" "h' = h2"
              using assms ld r d orig True Pair Throw by (simp_all add: alloc_def)
            then show ?thesis
              by (intro refused[of d orig e]) (use ld r d orig True Pair Throw in simp_all)
          next
            case (Normal u)
            have "bindLazy h2 self ms = Some (c, h')"
              using assms ld r d orig True Pair Normal by (simp add: alloc_def)
            then show ?thesis
              by (intro install[of d orig h2]) (use ld r d orig True Pair Normal in simp_all)
          qed
        qed
      qed
    qed
  qed
qed

lemma changes_only_closure:
  "changes_only self {} h (h @ [ob])"
  using changes_only_alloc[of h ob] by (simp add: alloc_def)

lemma lazy_install_changes:
  assumes "defineProperty (h @ [ob]) self m d = (c, h2)"
  shows "changes_only self {m} h h2"
  using changes_only_trans[OF changes_only_closure defineProperty_changes[OF assms]] by simp


lemma heap_ok_closure: "heap_ok h \<Longrightarrow> heap_ok (h @ [closure c])"
  by (rule heap_ok_alloc) (auto simp: closure_def heap_ok_def)

lemma lazy_install_heap_ok:
  assumes "heap_ok h"
    "defineProperty (h @ [closure c0]) self m (getter_desc g) = (c, h2)"
  shows "heap_ok h2"
  using heap_ok_defineProperty[OF heap_ok_closure[OF assms(1)] _ assms(2)]
  by (simp add: desc_ok_def getter_desc_def)


lemma bindLazy_ends:
  shows "heap_ok h \<Longrightarrow> chain h (getPrototypeOf h self) ps \<Longrightarrow> self < length h \<Longrightarrow>
         \<exists>c h'. bindLazy h self ms = Some (c, h')"
proof (induction ms arbitrary: h)
  case Nil
  show ?case by simp
next
  case (Cons m ms)
  note ld = lazy_descriptor_chain[OF Cons.prems(2), of m]
  show ?case
  proof (cases "getPrototypeOf h self")
    case None
    with ld show ?thesis by simp
  next
    case (Some parent)
    define dopt where "dopt = (case getOwnPropertyDescriptor h parent m of
                          Some d \<Rightarrow> Some d | None \<Rightarrow> first_desc h ps m)"
    with ld Some have l: "lazy_descriptor h self m = Some (Normal dopt)" by simp
    have rest: "\<exists>c h'. bindLazy h self ms = Some (c, h')"
      using Cons.IH[OF Cons.prems] .
    show ?thesis
    proof (cases dopt)
      case None
      with l rest show ?thesis by simp
    next
      case (Some d)
      show ?thesis
      proof (cases "isCallable h (desc_value d)")
        case False
        with l Some rest show ?thesis by (auto split: val.splits)
      next
        case True
        then obtain orig where orig: "desc_value d = VObj orig"
          using isCallable_not_object by (cases "desc_value d") auto
        obtain c2 h2 where dp: "defineProperty (h @ [closure (LazyGetter orig self m)]) self m
                 (getter_desc (VObj (length h))) = (c2, h2)" by fastforce
        have co: "changes_only self {m} h h2" using lazy_install_changes[OF dp] .
        have "heap_ok h2" using lazy_install_heap_ok[OF Cons.prems(1) dp] .
        moreover have "chain h2 (getPrototypeOf h2 self) ps"
          using chain_self_changes[OF Cons.prems(1) Cons.prems(3) Cons.prems(2) co] .
        moreover have "self < length h2" using co Cons.prems(3) by (simp add: changes_only_def)
        ultimately have "\<exists>c h'. bindLazy h2 self ms = Some (c, h')"
          using Cons.IH by blast
        with l Some True orig dp show ?thesis
          by (cases c2) (auto simp: alloc_def)
      qed
    qed
  qed
qed


lemma first_desc_Some:
  "first_desc h ps k = Some d \<Longrightarrow> \<exists>a\<in>set ps. getOwnPropertyDescriptor h a k = Some d"
  by (induction ps) (auto split: option.splits)

lemma lazy_descriptor_value:
  assumes ok: "heap_ok h" and self: "self < length h"
    and ch: "chain h (getPrototypeOf h self) ps"
    and ld: "lazy_descriptor h self m = Some (Normal (Some d))"
    and v: "desc_value d = VObj b"
  shows "b < length h"
proof -
  have inh: "\<And>a. a \<in> set ps \<Longrightarrow> a < length h"
    using chain_in_heap[OF ch ok] heap_ok_proto[OF ok self] by blast
  from ld lazy_descriptor_chain[OF ch, of m] obtain parent where
    parent: "getPrototypeOf h self = Some parent"
    and d: "(case getOwnPropertyDescriptor h parent m of
              Some d \<Rightarrow> Some d | None \<Rightarrow> first_desc h ps m) = Some d"
    by (auto split: option.splits)
  have p: "parent < length h" using heap_ok_proto[OF ok self parent] .
  from d obtain a where "a < length h" "getOwnPropertyDescriptor h a m = Some d"
    using p inh first_desc_Some by (fastforce split: option.splits)
  then show ?thesis using heap_ok_value[OF ok _ _ v] by blast
qed

lemma no_callable_changes:
  assumes ok: "heap_ok h" and self: "self < length h"
    and ch: "chain h (getPrototypeOf h self) ps"
    and ld: "lazy_descriptor h self m = Some (Normal dopt)"
    and co: "changes_only self K h h'"
  shows "(case dopt of None \<Rightarrow> True | Some d \<Rightarrow> \<not> isCallable h' (desc_value d))
       = (case dopt of None \<Rightarrow> True | Some d \<Rightarrow> \<not> isCallable h (desc_value d))"
proof (cases dopt)
  case None
  then show ?thesis by simp
next
  case (Some d)
  have "isCallable h' (desc_value d) = isCallable h (desc_value d)"
  proof (cases "\<exists>b. desc_value d = VObj b")
    case True
    then obtain b where b: "desc_value d = VObj b" by blast
    have "b < length h" using lazy_descriptor_value[OF ok self ch _ b] ld Some by simp
    with b co show ?thesis by (simp add: isCallable_changes)
  next
    case False
    then show ?thesis by (simp add: isCallable_not_object)
  qed
  with Some show ?thesis by simp
qed

lemma bindLazy_leaves_name:
  "heap_ok h \<Longrightarrow> self < length h \<Longrightarrow> chain h (getPrototypeOf h self) ps \<Longrightarrow>
   bindLazy h self ms = Some (c, h') \<Longrightarrow>
   lazy_descriptor h self m = Some (Normal dopt) \<Longrightarrow>
   (case dopt of None \<Rightarrow> True | Some d \<Rightarrow> \<not> isCallable h (desc_value d)) \<Longrightarrow>
   getOwnPropertyDescriptor h' self m = getOwnPropertyDescriptor h self m"
proof (induction ms arbitrary: h)
  case Nil
  then show ?case by simp
next
  case (Cons m0 ms)
  note ok = Cons.prems(1) and self = Cons.prems(2) and ch = Cons.prems(3)
    and ld = Cons.prems(5) and nc = Cons.prems(6)
  from Cons.prems(4) show ?case
  proof (cases rule: bindLazy_Cons_cases)
    case (throw e)
    then show ?thesis by simp
  next
    case (skip dopt0)
    with Cons.IH[OF ok self ch _ ld nc] show ?thesis by simp
  next
    case (refused d orig e)
    have "m0 \<noteq> m" using refused(1,2,3) ld nc by auto
    with lazy_install_changes[OF refused(4)] self show ?thesis
      by (simp add: changes_only_own)
  next
    case (install d orig h2)
    have ne: "m0 \<noteq> m" using install(1,2,3) ld nc by auto
    have co: "changes_only self {m0} h h2" using lazy_install_changes[OF install(4)] .
    have ok2: "heap_ok h2" using lazy_install_heap_ok[OF ok install(4)] .
    have self2: "self < length h2" using co self by (simp add: changes_only_def)
    have ch2: "chain h2 (getPrototypeOf h2 self) ps"
      using chain_self_changes[OF ok self ch co] .
    have ld2: "lazy_descriptor h2 self m = Some (Normal dopt)"
      using lazy_descriptor_changes[OF ok self ch co] ld by simp
    have nc2: "case dopt of None \<Rightarrow> True | Some d \<Rightarrow> \<not> isCallable h2 (desc_value d)"
      using no_callable_changes[OF ok self ch ld co] nc by simp
    have "getOwnPropertyDescriptor h' self m = getOwnPropertyDescriptor h2 self m"
      using Cons.IH[OF ok2 self2 ch2 install(5) ld2 nc2] .
    also have "\<dots> = getOwnPropertyDescriptor h self m"
      using co self ne by (simp add: changes_only_own)
    finally show ?thesis .
  qed
qed




section \<open>Example programs\<close>

text \<open>
  The heaps of the examples hold \<open>Object.prototype\<close> at 0 and \<open>Function.prototype\<close> at 1.
  A class method is a writable, configurable, non-enumerable data property. Function 0
  of the example program returns its receiver; every other function returns a string.
\<close>

definition plain_object :: "(key \<times> slot) list \<Rightarrow> addr option \<Rightarrow> obj" where
  "plain_object ps p = \<lparr>props = ps, proto = p, extensible = True, code = None\<rparr>"

definition user_function :: "nat \<Rightarrow> obj" where
  "user_function n =
     \<lparr>props = [], proto = Some FunctionPrototype, extensible = True, code = Some (UserFn n)\<rparr>"

definition method_slot :: "addr \<Rightarrow> slot" where
  "method_slot f = DataP (VObj f) True False True"

definition example_bodies :: bodies where
  "example_bodies c this args h =
     (if c = UserFn 0 then Some (Normal this, h) else Some (Normal (VStr ''replacement''), h))"

definition lazy_options :: options where
  "lazy_options = no_options\<lparr>o_lazy := True\<rparr>"


text \<open>
  \<open>class B extends A {}\<close> with \<open>B.prototype.foo = 5\<close>, and an instance of \<open>B\<close> at address 5:
  the nearest \<open>foo\<close> on the chain of the instance is not callable.
\<close>

definition shadow_heap :: heap where
  "shadow_heap =
     [plain_object [] None,
      plain_object [] (Some 0),
      plain_object [(KStr ''foo'', method_slot 3)] (Some 0),
      user_function 0,
      plain_object [(KStr ''foo'', DataP (VNum 5) True True True)] (Some 2),
      plain_object [] (Some 4)]"








section \<open>Lazy binding: the claims\<close>

lemma autoBind_lazy:
  "o_lazy opts \<Longrightarrow> getAllMethodNames h self = Some all \<Longrightarrow>
   autoBind B h self (Given opts) =
     (case bindLazy h self (filterMethods all opts) of
        None \<Rightarrow> None
      | Some (Throw e, h') \<Rightarrow> Some (Throw e, h')
      | Some (Normal u, h') \<Rightarrow> Some (Normal (VObj self), h'))"
  by (simp add: autoBind_def or_else_def)

lemma autoBind_lazy_run:
  assumes "o_lazy opts" "getAllMethodNames h self = Some all"
    "autoBind B h self (Given opts) = Some (c, h')"
  shows "\<exists>c0. bindLazy h self (filterMethods all opts) = Some (c0, h')
           \<and> (case c0 of Normal u \<Rightarrow> c = Normal (VObj self) | Throw e \<Rightarrow> c = Throw e)"
  using assms(3) unfolding autoBind_lazy[OF assms(1,2)]
  by (auto split: option.splits completion.splits prod.splits)



lemma bindLazy_skip_step:
  assumes "lazy_descriptor h self m = Some (Normal dopt)"
    "case dopt of None \<Rightarrow> True | Some d \<Rightarrow> \<not> isCallable h (desc_value d)"
  shows "bindLazy h self (m # ms) = bindLazy h self ms"
  using assms by (auto split: option.splits val.splits)

text \<open>
  C3 as the specification states it fails. On the heap where the nearest \<open>foo\<close> of the
  instance is the number 5, \<open>foo\<close> is discovered and passes the filter, the lookup of
  \<open>bindLazy\<close> yields a descriptor that is not callable, and the call returns with the heap
  as it was: the instance has no own property \<open>foo\<close>, so no accessor was installed.
\<close>

theorem lazy_installs_no_accessor_counterexample:
  "getAllMethodNames shadow_heap 5 = Some [KStr ''foo'']
   \<and> KStr ''foo'' \<in> set (filterMethods [KStr ''foo''] lazy_options)
   \<and> lazy_descriptor shadow_heap 5 (KStr ''foo'')
       = Some (Normal (Some (DataP (VNum 5) True True True)))
   \<and> \<not> isCallable shadow_heap (VNum 5)
   \<and> autoBind example_bodies shadow_heap 5 (Given lazy_options)
       = Some (Normal (VObj 5), shadow_heap)
   \<and> getOwnPropertyDescriptor shadow_heap 5 (KStr ''foo'') = None"
  by code_simp


text \<open>
  C3, as the code has it. In lazy mode a name for which the descriptor lookup of
  \<open>bindLazy\<close> yields no callable is skipped before anything is installed: the loop goes on
  to the next name, and after the whole call the instance has at that name the own
  property it had before (none, when it had none). The call itself ends.
\<close>

theorem lazy_skips_name_without_callable:
  assumes "heap_ok h" and "self < length h" and "o_lazy opts"
    and "getAllMethodNames h self = Some all"
    and "lazy_descriptor h self m = Some (Normal dopt)"
    and "case dopt of None \<Rightarrow> True | Some d \<Rightarrow> \<not> isCallable h (desc_value d)"
  shows "(\<forall>ms. bindLazy h self (m # ms) = bindLazy h self ms)
       \<and> (\<exists>c h'. autoBind B h self (Given opts) = Some (c, h')
             \<and> getOwnPropertyDescriptor h' self m = getOwnPropertyDescriptor h self m)"
proof -
  from getAllMethodNames_chain[OF assms(4)] obtain ps where
    ch: "chain h (getPrototypeOf h self) ps" by blast
  from bindLazy_ends[OF assms(1) ch assms(2)] obtain c0 h' where
    run: "bindLazy h self (filterMethods all opts) = Some (c0, h')" by blast
  have own: "getOwnPropertyDescriptor h' self m = getOwnPropertyDescriptor h self m"
    using bindLazy_leaves_name[OF assms(1,2) ch run assms(5,6)] .
  have "\<exists>c. autoBind B h self (Given opts) = Some (c, h')"
    unfolding autoBind_lazy[OF assms(3,4)] using run by (cases c0) simp_all
  with own bindLazy_skip_step[OF assms(5,6)] show ?thesis by blast
qed





theorem lazy_skips_name_without_callable_witness:
  "heap_ok shadow_heap \<and> 5 < length shadow_heap \<and> o_lazy lazy_options
   \<and> getAllMethodNames shadow_heap 5 = Some [KStr ''foo'']
   \<and> lazy_descriptor shadow_heap 5 (KStr ''foo'')
       = Some (Normal (Some (DataP (VNum 5) True True True)))
   \<and> \<not> isCallable shadow_heap (desc_value (DataP (VNum 5) True True True))
   \<and> (\<exists>c h'. autoBind example_bodies shadow_heap 5 (Given lazy_options) = Some (c, h')
         \<and> getOwnPropertyDescriptor h' 5 (KStr ''foo'')
             = getOwnPropertyDescriptor shadow_heap 5 (KStr ''foo''))"
proof -
  have 1: "heap_ok shadow_heap" by code_simp
  have 2: "5 < length shadow_heap" by code_simp
  have 3: "o_lazy lazy_options" by code_simp
  have 4: "getAllMethodNames shadow_heap 5 = Some [KStr ''foo'']" by code_simp
  have 5: "lazy_descriptor shadow_heap 5 (KStr ''foo'')
       = Some (Normal (Some (DataP (VNum 5) True True True)))" by code_simp
  have 6: "\<not> isCallable shadow_heap (desc_value (DataP (VNum 5) True True True))"
    by code_simp
  then have 7: "case Some (DataP (VNum 5) True True True) of None \<Rightarrow> True
             | Some d \<Rightarrow> \<not> isCallable shadow_heap (desc_value d)" by simp
  from lazy_skips_name_without_callable[OF 1 2 3 4 5 7, of example_bodies] 1 2 3 4 5 6
  show ?thesis by blast
qed



section \<open>Eager binding, step by step\<close>























section \<open>When the instance takes the definitions\<close>









section \<open>The entry point as a whole\<close>
















definition frozen_heap :: heap where
  "frozen_heap =
     [plain_object [] None,
      plain_object [] (Some 0),
      plain_object [(KStr ''foo'', method_slot 3)] (Some 0),
      user_function 0,
      \<lparr>props = [], proto = Some 2, extensible = False, code = None\<rparr>]"






section \<open>Binding twice\<close>




section \<open>The React variant\<close>









section \<open>Errors\<close>













section \<open>The class decorator\<close>






















text \<open>Old objects are untouched when only an object made later is changed.\<close>

definition extends :: "heap \<Rightarrow> heap \<Rightarrow> bool" where
  "extends h h' = (length h \<le> length h' \<and> take (length h) h' = h)"

lemma extends_nth: "extends h h' \<Longrightarrow> a < length h \<Longrightarrow> h' ! a = h ! a"
  unfolding extends_def by (metis nth_take)


lemma extends_refl: "extends h h"
  by (simp add: extends_def)




lemma extends_changes_only: "extends h h' \<Longrightarrow> changes_only self {} h h'"
proof -
  assume e: "extends h h'"
  then have "length h \<le> length h'" by (simp add: extends_def)
  moreover have "\<And>a. a < length h \<Longrightarrow> h' ! a = h ! a" using extends_nth[OF e] .
  ultimately show ?thesis by (simp add: changes_only_def)
qed

lemma extends_own:
  "extends h h' \<Longrightarrow> a < length h \<Longrightarrow>
   getOwnPropertyDescriptor h' a k = getOwnPropertyDescriptor h a k"
proof -
  assume e: "extends h h'" and a: "a < length h"
  show ?thesis
    by (rule changes_only_own[OF extends_changes_only[OF e] a]) simp
qed




























end
